theory Spec2Isabelle
  imports Complex_Main
begin

section \<open>The built-in string and array operations used by \<open>src/app/page.tsx\<close>\<close>

text \<open>
  A JavaScript string is a sequence of code units; it is modelled as a \<^typ>\<open>string\<close>, one
  \<^typ>\<open>char\<close> for each code unit in the range 0 to 255. Arrays are lists. Numbers that are
  only ever integers (lengths, counts, page indices) are \<^typ>\<open>nat\<close> or \<^typ>\<open>int\<close>.
\<close>

text \<open>\<open>s.split(sep)\<close> for a separator of one character: the scan keeps the segment read
  so far and closes it at every separator; the empty string gives one empty segment.\<close>

fun split_scan :: "char \<Rightarrow> string \<Rightarrow> string \<Rightarrow> string list" where
  "split_scan sep cur [] = [cur]"
| "split_scan sep cur (c # cs) =
     (if c = sep then cur # split_scan sep [] cs else split_scan sep (cur @ [c]) cs)"

definition String_split :: "string \<Rightarrow> char \<Rightarrow> string list" where
  "String_split s sep = split_scan sep [] s"

text \<open>\<open>xs.join(sep)\<close>.\<close>

fun Array_join :: "string list \<Rightarrow> string \<Rightarrow> string" where
  "Array_join [] sep = []"
| "Array_join [x] sep = x"
| "Array_join (x # y # ys) sep = x @ sep @ Array_join (y # ys) sep"

text \<open>\<open>s.trim()\<close> removes white space and line terminators at both ends. Of the code units
  that ECMAScript counts as such, these seven lie in the modelled range: TAB, LF, VT, FF, CR,
  SPACE and NO-BREAK SPACE.\<close>

definition is_whitespace :: "char \<Rightarrow> bool" where
  "is_whitespace c =
     (c = CHR 0x09 \<or> c = CHR 0x0A \<or> c = CHR 0x0B \<or> c = CHR 0x0C \<or> c = CHR 0x0D
      \<or> c = CHR 0x20 \<or> c = CHR 0xA0)"

definition String_trim :: "string \<Rightarrow> string" where
  "String_trim s = rev (dropWhile is_whitespace (rev (dropWhile is_whitespace s)))"

text \<open>\<open>xs.slice(start, end)\<close>: a negative bound counts from the end of the array, both
  bounds are clamped to the array, and a missing \<open>end\<close> (here \<open>None\<close>) is the length.\<close>

definition Array_slice :: "'a list \<Rightarrow> int \<Rightarrow> int option \<Rightarrow> 'a list" where
  "Array_slice xs start end =
     (let len = int (length xs);
          k = (if start < 0 then max (len + start) 0 else min start len);
          relativeEnd = (case end of None \<Rightarrow> len | Some e \<Rightarrow> e);
          final = (if relativeEnd < 0 then max (len + relativeEnd) 0 else min relativeEnd len)
      in take (nat (final - k)) (drop (nat k) xs))"

text \<open>\<open>s.replace(pat, rep)\<close> with a string pattern replaces the first occurrence only. The
  replacement used by the program contains no \<open>$\<close>, so it is inserted as it is.\<close>

definition starts_with :: "string \<Rightarrow> string \<Rightarrow> bool" where
  "starts_with s pat = (take (length pat) s = pat)"

fun String_replace :: "string \<Rightarrow> string \<Rightarrow> string \<Rightarrow> string" where
  "String_replace [] pat rep = (if pat = [] then rep else [])"
| "String_replace (c # cs) pat rep =
     (if starts_with (c # cs) pat then rep @ drop (length pat) (c # cs)
      else c # String_replace cs pat rep)"

section \<open>Query builder (lines 39 to 41)\<close>

definition tagList :: "string \<Rightarrow> string list" where
  "tagList tags = filter (\<lambda>tag. tag \<noteq> []) (map String_trim (String_split tags CHR '',''))"

definition queryString :: "string \<Rightarrow> string" where
  "queryString tags = Array_join (map (\<lambda>tag. ''label:'' @ tag) (tagList tags)) ''+''"

definition request_url :: "string \<Rightarrow> string" where
  "request_url tags =
     ''https://api.github.com/search/issues?q='' @ queryString tags @ ''&per_page=100''"

section \<open>Pagination (lines 16 and 91 to 95)\<close>

definition ITEMS_PER_PAGE :: int where
  "ITEMS_PER_PAGE = 10"

text \<open>\<open>Math.ceil(repos.length / ITEMS_PER_PAGE)\<close>. The quotient of an array length by ten is
  computed here in the reals; the double nearest to it has the same ceiling.\<close>

definition totalPages :: "'a list \<Rightarrow> int" where
  "totalPages repos = \<lceil>real (length repos) / real_of_int ITEMS_PER_PAGE\<rceil>"

definition paginatedRepos :: "'a list \<Rightarrow> int \<Rightarrow> 'a list" where
  "paginatedRepos repos currentPage =
     Array_slice repos ((currentPage - 1) * ITEMS_PER_PAGE) (Some (currentPage * ITEMS_PER_PAGE))"

section \<open>Aggregation (lines 10 to 14 and 47 to 62)\<close>

text \<open>An issue record: of the fields the search API returns, only \<open>repository_url\<close> is read.\<close>

record issue =
  repository_url :: string

text \<open>A value of \<open>repoIssueCount\<close> is \<open>{ count, url }\<close>; the type \<open>Repo\<close> adds the field
  \<open>repo\<close>.\<close>

record entry =
  count :: nat
  url :: string

record Repo = entry +
  repo :: string

datatype exn = Error string | TypeError | NetworkError | SyntaxError

text \<open>
  \<open>repoIssueCount\<close> is created by the literal \<open>{}\<close>: an ordinary object whose prototype is
  \<open>Object.prototype\<close>. Its own properties are kept as an association list in the order of
  their creation. A read \<open>repoIssueCount[k]\<close> of a key that is no own property continues
  in the prototype, which holds the twelve members below, each a function or an object
  and hence truthy; every other key reads as \<open>undefined\<close> (or as a \<open>NaN\<close> left on the
  prototype by an earlier increment), which is falsy.
\<close>

definition Object_prototype_names :: "string list" where
  "Object_prototype_names =
     [''constructor'', ''__defineGetter__'', ''__defineSetter__'', ''hasOwnProperty'',
      ''__lookupGetter__'', ''__lookupSetter__'', ''isPrototypeOf'', ''propertyIsEnumerable'',
      ''toString'', ''valueOf'', ''__proto__'', ''toLocaleString'']"

datatype property_value = OwnEntry entry | Inherited | Falsy

definition get_property :: "(string \<times> entry) list \<Rightarrow> string \<Rightarrow> property_value" where
  "get_property obj k =
     (case map_of obj k of
        Some e \<Rightarrow> OwnEntry e
      | None \<Rightarrow> if k \<in> set Object_prototype_names then Inherited else Falsy)"

text \<open>
  The state of the \<open>forEach\<close> loop: the own properties of \<open>repoIssueCount\<close>, and
  \<open>realm\<close>, the names of the members of \<open>Object.prototype\<close> on whose value the loop has
  written a property \<open>count\<close>. These values are shared by the whole page, so a write to
  one of them is an effect outside the aggregation.
\<close>

record loop_state =
  repoIssueCount :: "(string \<times> entry) list"
  realm :: "string list"

definition repoFullName :: "issue \<Rightarrow> string" where
  "repoFullName i =
     Array_join (Array_slice (String_split (repository_url i) CHR ''/'') (- 2) None) ''/''"

definition webUrl :: "issue \<Rightarrow> string" where
  "webUrl i = String_replace (repository_url i) ''api.github.com/repos'' ''github.com''"

text \<open>
  The callback, lines 50 to 57. The guard \<open>!repoIssueCount[repoFullName]\<close> holds for a
  falsy read only, and the assignment then creates a new own property after the existing
  ones. \<open>repoIssueCount[repoFullName].count++\<close> reads the key again: on an own entry it
  adds one to its count; on an inherited value it stores \<open>undefined + 1\<close>, that is \<open>NaN\<close>,
  as the property \<open>count\<close> of that shared value; on \<open>undefined\<close> it would throw a
  \<open>TypeError\<close>.
\<close>

definition forEach_callback :: "issue \<Rightarrow> loop_state \<Rightarrow> exn + loop_state" where
  "forEach_callback i st =
     (let k = repoFullName i;
          st1 = (case get_property (repoIssueCount st) k of
                   Falsy \<Rightarrow>
                     st\<lparr>repoIssueCount :=
                          repoIssueCount st @ [(k, \<lparr>count = 0, url = webUrl i\<rparr>)]\<rparr>
                 | _ \<Rightarrow> st)
      in case get_property (repoIssueCount st1) k of
           OwnEntry e \<Rightarrow>
             Inr (st1\<lparr>repoIssueCount :=
                       map (\<lambda>(k', e'). if k' = k then (k', e'\<lparr>count := count e' + 1\<rparr>)
                                        else (k', e'))
                         (repoIssueCount st1)\<rparr>)
         | Inherited \<Rightarrow> Inr (st1\<lparr>realm := List.insert k (realm st1)\<rparr>)
         | Falsy \<Rightarrow> Inl TypeError)"

fun forEach :: "issue list \<Rightarrow> loop_state \<Rightarrow> exn + loop_state" where
  "forEach [] st = Inr st"
| "forEach (i # items) st =
     (case forEach_callback i st of
        Inl e \<Rightarrow> Inl e
      | Inr st' \<Rightarrow> forEach items st')"

text \<open>
  \<open>Object.entries\<close> lists the own properties: first the keys that are array indices (the
  canonical decimal form of an integer from 0 to \<open>2\<^sup>3\<^sup>2 - 2\<close>) in ascending numeric order,
  then all other keys in the order of their creation.
\<close>

definition is_digit :: "char \<Rightarrow> bool" where
  "is_digit c = (48 \<le> (of_char c :: nat) \<and> (of_char c :: nat) \<le> 57)"

definition digits_value :: "string \<Rightarrow> nat" where
  "digits_value k = foldl (\<lambda>n c. 10 * n + ((of_char c :: nat) - 48)) 0 k"

definition is_array_index :: "string \<Rightarrow> bool" where
  "is_array_index k =
     (case k of
        [] \<Rightarrow> False
      | c # cs \<Rightarrow> list_all is_digit k \<and> (c \<noteq> CHR ''0'' \<or> cs = []) \<and> digits_value k < 4294967295)"

definition Object_entries :: "(string \<times> 'v) list \<Rightarrow> (string \<times> 'v) list" where
  "Object_entries obj =
     sort_key (\<lambda>p. digits_value (fst p)) (filter (\<lambda>p. is_array_index (fst p)) obj)
     @ filter (\<lambda>p. \<not> is_array_index (fst p)) obj"

text \<open>
  \<open>xs.sort(comparefn)\<close> is stable (ECMAScript 2019): for a consistent comparator it
  returns the one ordered arrangement that keeps elements comparing equal in their
  original order. Insertion from the right, each element placed before the first one
  it does not exceed, computes that arrangement.
\<close>

fun sort_insert :: "('a \<Rightarrow> 'a \<Rightarrow> int) \<Rightarrow> 'a \<Rightarrow> 'a list \<Rightarrow> 'a list" where
  "sort_insert comparefn x [] = [x]"
| "sort_insert comparefn x (y # ys) =
     (if comparefn x y \<le> 0 then x # y # ys else y # sort_insert comparefn x ys)"

definition Array_sort :: "('a \<Rightarrow> 'a \<Rightarrow> int) \<Rightarrow> 'a list \<Rightarrow> 'a list" where
  "Array_sort comparefn xs = foldr (sort_insert comparefn) xs []"

text \<open>Lines 60 to 62.\<close>

definition by_count_desc :: "Repo \<Rightarrow> Repo \<Rightarrow> int" where
  "by_count_desc a b = int (count b) - int (count a)"

definition to_Repo :: "string \<times> entry \<Rightarrow> Repo" where
  "to_Repo p = \<lparr>count = count (snd p), url = url (snd p), repo = fst p\<rparr>"

definition sortedRepos :: "(string \<times> entry) list \<Rightarrow> Repo list" where
  "sortedRepos obj = Array_sort by_count_desc (map to_Repo (Object_entries obj))"

text \<open>
  The aggregation as a whole, started in a realm \<open>r\<close>: the ranked list and the realm it
  leaves behind, or the exception that ended it.
\<close>

definition aggregate_in :: "string list \<Rightarrow> issue list \<Rightarrow> exn + (Repo list \<times> string list)" where
  "aggregate_in r items =
     (case forEach items \<lparr>repoIssueCount = [], realm = r\<rparr> of
        Inl e \<Rightarrow> Inl e
      | Inr st \<Rightarrow> Inr (sortedRepos (repoIssueCount st), realm st))"

definition aggregate :: "issue list \<Rightarrow> exn + Repo list" where
  "aggregate items =
     (case aggregate_in [] items of
        Inl e \<Rightarrow> Inl e
      | Inr res \<Rightarrow> Inr (fst res))"

section \<open>Component state and event handlers (lines 27 to 89 and 169 to 186)\<close>

record state =
  tags :: string
  repos :: "Repo list"
  loading :: bool
  error :: "string option"
  currentPage :: int

definition initial_state :: state where
  "initial_state = \<lparr>tags = [], repos = [], loading = False, error = None, currentPage = 1\<rparr>"

definition trendingTopics :: "string list" where
  "trendingTopics =
     [''hacktoberfest'', ''good-first-issue'', ''help-wanted'', ''bug'', ''enhancement'',
      ''documentation'']"

text \<open>
  What the network answers to a request: \<open>fetch\<close> rejects, or it resolves to a response
  with its \<open>ok\<close> flag and a body. \<open>Malformed\<close> is a body for which \<open>response.json()\<close>
  rejects or whose value has no array \<open>items\<close> of records with a string \<open>repository_url\<close>,
  so that line 45, 49 or 50 throws.
\<close>

datatype body = Malformed | Items "issue list"

datatype fetch_result = Rejected | Response bool body

text \<open>The \<open>try\<close> block, lines 39 to 64, up to the call of \<open>setRepos\<close>: the exception thrown or
  the value of \<open>sortedRepos\<close>.\<close>

definition try_block :: "(string \<Rightarrow> fetch_result) \<Rightarrow> string \<Rightarrow> exn + Repo list" where
  "try_block fetch tags' =
     (case fetch (request_url tags') of
        Rejected \<Rightarrow> Inl NetworkError
      | Response ok b \<Rightarrow>
          if \<not> ok then Inl (Error ''Failed to fetch issues'')
          else (case b of Malformed \<Rightarrow> Inl SyntaxError | Items items \<Rightarrow> aggregate items))"

text \<open>Lines 34 to 70: the two setters before the \<open>try\<close>, then \<open>setRepos\<close> or the \<open>catch\<close>
  clause, which does not read the exception, then \<open>finally\<close>.\<close>

definition fetchIssuesByTags :: "(string \<Rightarrow> fetch_result) \<Rightarrow> string \<Rightarrow> state \<Rightarrow> state" where
  "fetchIssuesByTags fetch tags' s =
     (let s1 = s\<lparr>loading := True, error := None\<rparr>;
          s2 = (case try_block fetch tags' of
                  Inr ranked \<Rightarrow> s1\<lparr>repos := ranked\<rparr>
                | Inl err \<Rightarrow>
                    s1\<lparr>error :=
                         Some ''An error occurred while fetching issues. Please try again.''\<rparr>)
      in s2\<lparr>loading := False\<rparr>)"

text \<open>Lines 72 to 76: the effect runs after a render in which \<open>tags\<close> differs from its
  previous value \<open>prev\<close>.\<close>

definition useEffect_tags :: "(string \<Rightarrow> fetch_result) \<Rightarrow> string \<Rightarrow> state \<Rightarrow> state" where
  "useEffect_tags fetch prev s =
     (if tags s = prev then s
      else if tags s \<noteq> [] then fetchIssuesByTags fetch (tags s) s
      else s)"

definition handleSearch :: "(string \<Rightarrow> fetch_result) \<Rightarrow> state \<Rightarrow> state" where
  "handleSearch fetch s = (fetchIssuesByTags fetch (tags s) s)\<lparr>currentPage := 1\<rparr>"

definition handleTrendingTopicClick ::
    "(string \<Rightarrow> fetch_result) \<Rightarrow> string \<Rightarrow> state \<Rightarrow> state" where
  "handleTrendingTopicClick fetch topic s =
     (let prevTags = tags s;
          newTags = (if prevTags \<noteq> [] then prevTags @ '','' @ topic else topic)
      in useEffect_tags fetch prevTags (s\<lparr>tags := newTags\<rparr>))"

text \<open>Lines 169 to 186: the pager is rendered for more than ten results only, and a
  disabled button does not call its handler.\<close>

definition pager_rendered :: "state \<Rightarrow> bool" where
  "pager_rendered s = (int (length (repos s)) > ITEMS_PER_PAGE)"

definition previous_click :: "state \<Rightarrow> state" where
  "previous_click s =
     (if pager_rendered s \<and> currentPage s \<noteq> 1
      then s\<lparr>currentPage := max (currentPage s - 1) 1\<rparr> else s)"

definition next_click :: "state \<Rightarrow> state" where
  "next_click s =
     (if pager_rendered s \<and> currentPage s \<noteq> totalPages (repos s)
      then s\<lparr>currentPage := min (currentPage s + 1) (totalPages (repos s))\<rparr> else s)"

section \<open>Notions of the specification\<close>

text \<open>A record whose repository-URL has at least two \<open>/\<close>-delimited segments, the form the
  specification assumes (\<open>https://api.<host>/repos/<owner>/<name>\<close>).\<close>

definition two_segments :: "issue \<Rightarrow> bool" where
  "two_segments i = (2 \<le> length (String_split (repository_url i) CHR ''/''))"

text \<open>The distinct elements of a list in the order of their first occurrence.\<close>

definition first_seen :: "'a list \<Rightarrow> 'a list" where
  "first_seen xs = rev (remdups (rev xs))"

text \<open>The number of records of an identifier, and the first record of an identifier.\<close>

definition matchCount :: "issue list \<Rightarrow> string \<Rightarrow> nat" where
  "matchCount items k = length (filter (\<lambda>i. repoFullName i = k) items)"

definition first_record :: "issue list \<Rightarrow> string \<Rightarrow> issue option" where
  "first_record items k = find (\<lambda>i. repoFullName i = k) items"

text \<open>The grouping the specification describes: one entry for each identifier in
  first-seen order, with its match count and the link of its first record.\<close>

definition grouped :: "issue list \<Rightarrow> (string \<times> entry) list" where
  "grouped items =
     map (\<lambda>k. (k, \<lparr>count = matchCount items k,
                    url = (case first_record items k of None \<Rightarrow> [] | Some i \<Rightarrow> webUrl i)\<rparr>))
       (first_seen (map repoFullName items))"

text \<open>The records whose identifier is no member of \<open>Object.prototype\<close>, and the members
  named by the others.\<close>

definition counted :: "issue list \<Rightarrow> issue list" where
  "counted items = filter (\<lambda>i. repoFullName i \<notin> set Object_prototype_names) items"

definition shadowed :: "issue list \<Rightarrow> string list" where
  "shadowed items =
     map repoFullName (filter (\<lambda>i. repoFullName i \<in> set Object_prototype_names) items)"

text \<open>Two concrete networks: a server that answers with a non-success status, and an
  unreachable one.\<close>

definition server_error :: "string \<Rightarrow> fetch_result" where
  "server_error u = Response False Malformed"

definition unreachable :: "string \<Rightarrow> fetch_result" where
  "unreachable u = Rejected"

text \<open>The three records of the specification's aggregation example, with the prefix of
  the search API written out.\<close>

definition example_issues :: "issue list" where
  "example_issues =
     [\<lparr>repository_url = ''https://api.github.com/repos/a/b''\<rparr>,
      \<lparr>repository_url = ''https://api.github.com/repos/a/b''\<rparr>,
      \<lparr>repository_url = ''https://api.github.com/repos/c/d''\<rparr>]"

text \<open>Two concrete states: one showing an earlier result on page 3, and one with twelve
  results on page 2 of 2.\<close>

definition earlier_result :: state where
  "earlier_result =
     \<lparr>tags = ''bug'',
      repos = [\<lparr>count = 2, url = ''https://github.com/a/b'', repo = ''a/b''\<rparr>],
      loading = False, error = None, currentPage = 3\<rparr>"

definition twelve_results :: state where
  "twelve_results =
     \<lparr>tags = ''bug'',
      repos = replicate 12 \<lparr>count = 1, url = ''https://github.com/a/b'', repo = ''a/b''\<rparr>,
      loading = False, error = None, currentPage = 2\<rparr>"

section \<open>Splitting, joining and trimming\<close>

lemma split_scan_nonempty: "split_scan sep cur s \<noteq> []"
  by (induction s arbitrary: cur) auto

lemma join_split_scan: "Array_join (split_scan sep cur s) [sep] = cur @ s"
proof (induction s arbitrary: cur)
  case Nil
  show ?case by simp
next
  case (Cons c cs)
  show ?case
  proof (cases "c = sep")
    case True
    obtain y ys where "split_scan sep [] cs = y # ys"
      using split_scan_nonempty[of sep "[]" cs] by (cases "split_scan sep [] cs") auto
    with True Cons.IH[of "[]"] show ?thesis by simp
  next
    case False
    with Cons.IH[of "cur @ [c]"] show ?thesis by simp
  qed
qed

lemma split_scan_segments:
  "sep \<notin> set cur \<Longrightarrow> seg \<in> set (split_scan sep cur s) \<Longrightarrow> sep \<notin> set seg"
proof (induction s arbitrary: cur)
  case Nil
  then show ?case by simp
next
  case (Cons c cs)
  show ?case
  proof (cases "c = sep")
    case True
    with Cons.prems have "seg = cur \<or> seg \<in> set (split_scan sep [] cs)" by simp
    then show ?thesis using Cons.prems(1) Cons.IH[of "[]"] by auto
  next
    case False
    with Cons.prems have "seg \<in> set (split_scan sep (cur @ [c]) cs)" by simp
    moreover have "sep \<notin> set (cur @ [c])" using False Cons.prems(1) by auto
    ultimately show ?thesis using Cons.IH by blast
  qed
qed

lemma split_scan_without_sep: "sep \<notin> set s \<Longrightarrow> split_scan sep cur s = [cur @ s]"
  by (induction s arbitrary: cur) auto

lemma split_scan_with_sep: "sep \<in> set s \<Longrightarrow> 2 \<le> length (split_scan sep cur s)"
proof (induction s arbitrary: cur)
  case Nil
  then show ?case by simp
next
  case (Cons c cs)
  show ?case
  proof (cases "c = sep")
    case True
    have "split_scan sep [] cs \<noteq> []" by (rule split_scan_nonempty)
    then have "1 \<le> length (split_scan sep [] cs)" by (cases "split_scan sep [] cs") auto
    with True show ?thesis by simp
  next
    case False
    then show ?thesis using Cons by simp
  qed
qed

lemma trim_whitespace_only: "\<forall>c\<in>set s. is_whitespace c \<Longrightarrow> String_trim s = []"
proof -
  assume a: "\<forall>c\<in>set s. is_whitespace c"
  have h: "dropWhile is_whitespace s = []"
    using a dropWhile_eq_Nil_conv[of is_whitespace s] by blast
  show ?thesis unfolding String_trim_def h by simp
qed

lemma filter_map_comprehension:
  "filter P (map f xs) = [f x. x \<leftarrow> xs, P (f x)]"
  by (induction xs) simp_all

lemma trim_decomposition:
  "\<exists>l r. s = l @ String_trim s @ r \<and> (\<forall>c\<in>set l. is_whitespace c) \<and> (\<forall>c\<in>set r. is_whitespace c)"
proof -
  let ?m = "dropWhile is_whitespace s"
  let ?l = "takeWhile is_whitespace s"
  let ?r = "rev (takeWhile is_whitespace (rev ?m))"
  have "rev ?m = takeWhile is_whitespace (rev ?m) @ dropWhile is_whitespace (rev ?m)" by simp
  then have "rev (rev ?m) = rev (takeWhile is_whitespace (rev ?m) @ dropWhile is_whitespace (rev ?m))"
    by (rule arg_cong)
  then have m: "?m = String_trim s @ ?r" by (simp only: rev_rev_ident rev_append String_trim_def)
  have "s = ?l @ ?m" by simp
  with m have "s = ?l @ String_trim s @ ?r" by simp
  moreover have "\<forall>c\<in>set ?l. is_whitespace c" by (auto dest: set_takeWhileD)
  moreover have "\<forall>c\<in>set ?r. is_whitespace c" by (auto dest: set_takeWhileD)
  ultimately show ?thesis by blast
qed

lemma trim_ends:
  "String_trim s \<noteq> [] \<Longrightarrow> \<not> is_whitespace (hd (String_trim s)) \<and> \<not> is_whitespace (last (String_trim s))"
proof -
  let ?m = "dropWhile is_whitespace s"
  let ?d = "dropWhile is_whitespace (rev ?m)"
  assume ne: "String_trim s \<noteq> []"
  then have d: "?d \<noteq> []" by (simp add: String_trim_def)
  then have "\<not> is_whitespace (hd ?d)" by (rule hd_dropWhile)
  moreover have "last (String_trim s) = hd ?d" using d by (simp add: String_trim_def last_rev)
  ultimately have l: "\<not> is_whitespace (last (String_trim s))" by simp
  have mne: "?m \<noteq> []" using d by (cases "?m") simp_all
  then have hm: "\<not> is_whitespace (hd ?m)" by (rule hd_dropWhile)
  have e1: "last (takeWhile is_whitespace (rev ?m) @ ?d) = last ?d"
    using d by (rule last_appendR)
  have e2: "takeWhile is_whitespace (rev ?m) @ ?d = rev ?m"
    by (rule takeWhile_dropWhile_id)
  have "last (rev ?m) = last ?d" using e1 unfolding e2 .
  then have "hd ?m = last ?d" using mne by (simp add: last_rev)
  moreover have "hd (String_trim s) = last ?d" using d by (simp add: String_trim_def hd_rev)
  ultimately have "\<not> is_whitespace (hd (String_trim s))" using hm by simp
  with l show ?thesis by simp
qed

lemma queryString_whitespace_only:
  assumes "\<forall>c\<in>set raw. is_whitespace c"
  shows "queryString raw = []"
proof -
  have "\<not> is_whitespace CHR '',''" by (simp add: is_whitespace_def)
  with assms have "CHR '','' \<notin> set raw" by blast
  then have "String_split raw CHR '','' = [raw]"
    by (simp add: String_split_def split_scan_without_sep)
  moreover have "String_trim raw = []" using assms by (rule trim_whitespace_only)
  ultimately show ?thesis by (simp add: queryString_def tagList_def)
qed

lemma queryString_example:
  "queryString ''hacktoberfest, good-first-issue'' = ''label:hacktoberfest+label:good-first-issue''"
  by (simp add: queryString_def tagList_def String_split_def String_trim_def is_whitespace_def)

lemma queryString_example_blank_segments: "queryString ''  ,  ,bug'' = ''label:bug''"
  by (simp add: queryString_def tagList_def String_split_def String_trim_def is_whitespace_def)

section \<open>C3: the query builder\<close>

text \<open>
  Claim C3. The raw label text is split on commas: the segments contain no comma and,
  joined again with commas, give the text back. A segment is trimmed: white space is
  taken away at both ends and nowhere else, and what is left neither starts nor ends with
  white space. The labels are the trimmed segments that are not empty, in their order;
  the query is the fragments \<open>label:L\<close> joined with \<open>+\<close>. A text of white space alone
  (the empty text too) gives the empty query, and the text
  \<open>hacktoberfest, good-first-issue\<close> gives \<open>label:hacktoberfest+label:good-first-issue\<close>.
\<close>

theorem queryString_builds_label_query:
  "Array_join (String_split raw CHR '','') '','' = raw
   \<and> (\<forall>seg\<in>set (String_split raw CHR '',''). CHR '','' \<notin> set seg)
   \<and> (\<forall>seg. \<exists>l r. seg = l @ String_trim seg @ r
          \<and> (\<forall>c\<in>set l. is_whitespace c) \<and> (\<forall>c\<in>set r. is_whitespace c)
          \<and> (String_trim seg \<noteq> [] \<longrightarrow>
                \<not> is_whitespace (hd (String_trim seg)) \<and> \<not> is_whitespace (last (String_trim seg))))
   \<and> tagList raw = [String_trim seg. seg \<leftarrow> String_split raw CHR '','', String_trim seg \<noteq> []]
   \<and> queryString raw = Array_join [''label:'' @ L. L \<leftarrow> tagList raw] ''+''
   \<and> ((\<forall>c\<in>set raw. is_whitespace c) \<longrightarrow> queryString raw = [])
   \<and> queryString ''hacktoberfest, good-first-issue''
       = ''label:hacktoberfest+label:good-first-issue''"
proof -
  have a: "Array_join (String_split raw CHR '','') '','' = raw"
    using join_split_scan[of "CHR '',''" "[]" raw] by (simp add: String_split_def)
  have b: "\<forall>seg\<in>set (String_split raw CHR '',''). CHR '','' \<notin> set seg"
    using split_scan_segments[of "CHR '',''" "[]" _ raw] by (simp add: String_split_def)
  have c: "\<forall>seg. \<exists>l r. seg = l @ String_trim seg @ r
          \<and> (\<forall>c\<in>set l. is_whitespace c) \<and> (\<forall>c\<in>set r. is_whitespace c)
          \<and> (String_trim seg \<noteq> [] \<longrightarrow>
                \<not> is_whitespace (hd (String_trim seg)) \<and> \<not> is_whitespace (last (String_trim seg)))"
    using trim_decomposition trim_ends by blast
  have d: "tagList raw = [String_trim seg. seg \<leftarrow> String_split raw CHR '','', String_trim seg \<noteq> []]"
    unfolding tagList_def by (rule filter_map_comprehension)
  have e: "queryString raw = Array_join [''label:'' @ L. L \<leftarrow> tagList raw] ''+''"
    by (simp add: queryString_def)
  have f: "(\<forall>c\<in>set raw. is_whitespace c) \<longrightarrow> queryString raw = []"
    using queryString_whitespace_only by blast
  from a b c d e f queryString_example show ?thesis by blast
qed

theorem queryString_builds_label_query_witness:
  "list_all is_whitespace ''  '' \<and> queryString ''  '' = []"
proof -
  have h: "\<forall>c\<in>set ''  ''. is_whitespace c" by (simp add: is_whitespace_def)
  then have "list_all is_whitespace ''  ''" by (simp add: list_all_iff)
  moreover have "queryString ''  '' = []"
    using h queryString_builds_label_query[of "''  ''"] by blast
  ultimately show ?thesis by simp
qed

section \<open>Pagination\<close>

lemma totalPages_div: "totalPages rs = (int (length rs) + 9) div 10"
proof -
  have "\<lceil>real_of_int (int (length rs)) / real_of_int 10\<rceil> = - (- int (length rs) div 10)"
    by (rule ceiling_divide_eq_div)
  then show ?thesis unfolding totalPages_def ITEMS_PER_PAGE_def by simp
qed

lemma paginatedRepos_take_drop:
  "1 \<le> p \<Longrightarrow> paginatedRepos rs p = take 10 (drop (nat ((p - 1) * 10)) rs)"
  unfolding paginatedRepos_def ITEMS_PER_PAGE_def Array_slice_def
  by (auto simp add: Let_def min_def max_def)

lemma take_drop_nth_range:
  "take n (drop m xs) = map (\<lambda>i. xs ! i) [m ..< min (m + n) (length xs)]"
proof (rule nth_equalityI)
  show "length (take n (drop m xs)) = length (map (\<lambda>i. xs ! i) [m ..< min (m + n) (length xs)])"
    by (simp add: min_def) arith
next
  fix i
  assume "i < length (take n (drop m xs))"
  then have i: "i < n" "m + i < length xs" by auto
  then have b: "m + i < min (m + n) (length xs)" by arith
  then have "[m ..< min (m + n) (length xs)] ! i = m + i" by (rule nth_upt)
  moreover have "i < length [m ..< min (m + n) (length xs)]"
    unfolding length_upt using b by arith
  ultimately have "map (\<lambda>i. xs ! i) [m ..< min (m + n) (length xs)] ! i = xs ! (m + i)"
    by (simp only: nth_map)
  moreover have "take n (drop m xs) ! i = xs ! (m + i)" using i by simp
  ultimately show "take n (drop m xs) ! i = map (\<lambda>i. xs ! i) [m ..< min (m + n) (length xs)] ! i"
    by simp
qed

lemma paginatedRepos_range:
  assumes "1 \<le> p"
  shows "paginatedRepos rs p
         = map (\<lambda>i. rs ! i) [nat ((p - 1) * 10) ..< min (nat (p * 10)) (length rs)]"
proof -
  have "nat ((p - 1) * 10) + 10 = nat (p * 10)" using assms by simp
  then show ?thesis
    using paginatedRepos_take_drop[OF assms, of rs]
      take_drop_nth_range[of 10 "nat ((p - 1) * 10)" rs] by simp
qed

section \<open>C4: pagination\<close>

text \<open>
  Claim C4. For a page index \<open>p\<close> of at least 1, the page is the list of the results at the
  positions from \<open>(p - 1) * 10\<close> up to, but not including, \<open>p * 10\<close> or the length of the list,
  whichever is smaller. The number of pages is the ceiling of a tenth of the length, the
  least number of pages of ten that hold all results. With 25 results there are 3 pages,
  page 1 holds the results 0 to 9 and page 3 the five results 20 to 24.
\<close>

theorem paginatedRepos_is_clamped_slice:
  assumes "1 \<le> p"
  shows "paginatedRepos rs p
           = map (\<lambda>i. rs ! i) [nat ((p - 1) * 10) ..< min (nat (p * 10)) (length rs)]
         \<and> totalPages rs = \<lceil>real (length rs) / 10\<rceil>
         \<and> 10 * (totalPages rs - 1) < int (length rs)
         \<and> int (length rs) \<le> 10 * totalPages rs
         \<and> (length rs = 25 \<longrightarrow>
              totalPages rs = 3
              \<and> paginatedRepos rs 1 = map (\<lambda>i. rs ! i) [0 ..< 10]
              \<and> paginatedRepos rs 3 = map (\<lambda>i. rs ! i) [20 ..< 25]
              \<and> length (paginatedRepos rs 3) = 5)"
proof -
  have a: "paginatedRepos rs p
           = map (\<lambda>i. rs ! i) [nat ((p - 1) * 10) ..< min (nat (p * 10)) (length rs)]"
    using assms by (rule paginatedRepos_range)
  have b: "totalPages rs = \<lceil>real (length rs) / 10\<rceil>"
    by (simp add: totalPages_def ITEMS_PER_PAGE_def)
  have c: "10 * (totalPages rs - 1) < int (length rs)"
    unfolding totalPages_div by presburger
  have d: "int (length rs) \<le> 10 * totalPages rs"
    unfolding totalPages_div by presburger
  have e: "length rs = 25 \<longrightarrow>
              totalPages rs = 3
              \<and> paginatedRepos rs 1 = map (\<lambda>i. rs ! i) [0 ..< 10]
              \<and> paginatedRepos rs 3 = map (\<lambda>i. rs ! i) [20 ..< 25]
              \<and> length (paginatedRepos rs 3) = 5"
  proof
    assume l: "length rs = 25"
    have "totalPages rs = 3" by (simp add: totalPages_div l)
    moreover have "paginatedRepos rs 1 = map (\<lambda>i. rs ! i) [0 ..< 10]"
      using paginatedRepos_range[of 1 rs] l by simp
    moreover have p3: "paginatedRepos rs 3 = map (\<lambda>i. rs ! i) [20 ..< 25]"
      using paginatedRepos_range[of 3 rs] l by simp
    moreover have "length (paginatedRepos rs 3) = 5" unfolding p3 by simp
    ultimately show "totalPages rs = 3
              \<and> paginatedRepos rs 1 = map (\<lambda>i. rs ! i) [0 ..< 10]
              \<and> paginatedRepos rs 3 = map (\<lambda>i. rs ! i) [20 ..< 25]
              \<and> length (paginatedRepos rs 3) = 5" by blast
  qed
  from a b c d e show ?thesis by blast
qed

theorem paginatedRepos_is_clamped_slice_witness:
  "(1::int) \<le> 3
   \<and> totalPages [0 ..< 25] = 3
   \<and> paginatedRepos [0 ..< 25] 3 = map (\<lambda>i. [0 ..< 25] ! i) [20 ..< 25]
   \<and> length (paginatedRepos [0 ..< 25] 3) = 5"
proof -
  have h: "(1::int) \<le> 3" by simp
  have l: "length [0 ..< 25] = 25" by simp
  from paginatedRepos_is_clamped_slice[OF h, of "[0 ..< 25]"] l h show ?thesis by blast
qed

section \<open>The loop computes the grouping\<close>

lemma forEach_snoc:
  "forEach (items @ [i]) st =
     (case forEach items st of Inl e \<Rightarrow> Inl e | Inr st' \<Rightarrow> forEach_callback i st')"
  by (induction items arbitrary: st) (auto split: sum.splits)

lemma first_seen_snoc:
  "first_seen (xs @ [x]) = (if x \<in> set xs then first_seen xs else first_seen xs @ [x])"
  by (simp add: first_seen_def)

lemma set_first_seen: "set (first_seen xs) = set xs"
  by (simp add: first_seen_def)

lemma distinct_first_seen: "distinct (first_seen xs)"
  by (simp add: first_seen_def)

lemma matchCount_snoc:
  "matchCount (items @ [i]) k = matchCount items k + (if repoFullName i = k then 1 else 0)"
  by (simp add: matchCount_def)

lemma first_record_snoc:
  "k \<in> repoFullName ` set items \<Longrightarrow> first_record (items @ [i]) k = first_record items k"
  unfolding first_record_def by (induction items) auto

lemma first_record_new:
  "k \<notin> repoFullName ` set items \<Longrightarrow> repoFullName i = k \<Longrightarrow> first_record (items @ [i]) k = Some i"
  unfolding first_record_def by (induction items) auto

lemma matchCount_new: "k \<notin> repoFullName ` set items \<Longrightarrow> matchCount items k = 0"
  unfolding matchCount_def by (induction items) auto

lemma grouped_snoc_old:
  assumes "repoFullName i \<in> repoFullName ` set items"
  shows "grouped (items @ [i]) = map (\<lambda>(k', e'). if k' = repoFullName i then (k', e'\<lparr>count := count e' + 1\<rparr>) else (k', e')) (grouped items)"
  using assms
  by (auto simp: grouped_def first_seen_snoc set_first_seen matchCount_snoc first_record_snoc)

lemma grouped_snoc_new:
  assumes "repoFullName i \<notin> repoFullName ` set items"
  shows "grouped (items @ [i]) = grouped items @ [(repoFullName i, \<lparr>count = 1, url = webUrl i\<rparr>)]"
  using assms
  by (auto simp: grouped_def first_seen_snoc set_first_seen matchCount_snoc first_record_snoc first_record_new matchCount_new)

lemma keys_grouped: "map fst (grouped items) = first_seen (map repoFullName items)"
  by (simp add: grouped_def comp_def)

lemma keyset_grouped: "fst ` set (grouped items) = repoFullName ` set items"
proof -
  have "set (map fst (grouped items)) = set (map repoFullName items)"
    by (simp only: keys_grouped set_first_seen)
  then show ?thesis by simp
qed

lemma key_in_grouped: "p \<in> set (grouped items) \<Longrightarrow> fst p \<in> repoFullName ` set items"
proof -
  assume "p \<in> set (grouped items)"
  then have "fst p \<in> fst ` set (grouped items)" by (rule imageI)
  then show ?thesis by (simp only: keyset_grouped)
qed

lemma map_of_grouped_None:
  "k \<notin> repoFullName ` set items \<Longrightarrow> map_of (grouped items) k = None"
  by (simp add: map_of_eq_None_iff keyset_grouped)

lemma map_of_grouped_Some:
  "k \<in> repoFullName ` set items \<Longrightarrow> \<exists>e. map_of (grouped items) k = Some e"
  by (metis keyset_grouped map_of_eq_None_iff not_None_eq)

lemma counted_snoc:
  "counted (items @ [i]) =
     (if repoFullName i \<in> set Object_prototype_names then counted items else counted items @ [i])"
  by (simp add: counted_def)

lemma shadowed_snoc:
  "shadowed (items @ [i]) =
     (if repoFullName i \<in> set Object_prototype_names then shadowed items @ [repoFullName i]
      else shadowed items)"
  by (simp add: shadowed_def)

lemma set_counted_names: "repoFullName ` set (counted items) \<inter> set Object_prototype_names = {}"
  by (auto simp: counted_def)

lemma callback_inherited:
  assumes "repoFullName i \<in> set Object_prototype_names"
  shows "forEach_callback i \<lparr>repoIssueCount = grouped (counted items), realm = r\<rparr>
         = Inr \<lparr>repoIssueCount = grouped (counted items), realm = List.insert (repoFullName i) r\<rparr>"
proof -
  have "repoFullName i \<notin> repoFullName ` set (counted items)"
    using assms set_counted_names[of items] by blast
  then have "map_of (grouped (counted items)) (repoFullName i) = None"
    by (rule map_of_grouped_None)
  then have "get_property (grouped (counted items)) (repoFullName i) = Inherited"
    using assms by (simp add: get_property_def)
  then show ?thesis by (simp add: forEach_callback_def Let_def)
qed

lemma callback_old:
  assumes "repoFullName i \<in> repoFullName ` set ys"
  shows "forEach_callback i \<lparr>repoIssueCount = grouped ys, realm = r\<rparr>
         = Inr \<lparr>repoIssueCount = grouped (ys @ [i]), realm = r\<rparr>"
proof -
  obtain e where "map_of (grouped ys) (repoFullName i) = Some e"
    using map_of_grouped_Some[OF assms] by blast
  then have "get_property (grouped ys) (repoFullName i) = OwnEntry e"
    by (simp add: get_property_def)
  then show ?thesis
    by (simp add: forEach_callback_def Let_def grouped_snoc_old[OF assms])
qed

lemma callback_fresh:
  assumes "get_property obj (repoFullName i) = Falsy"
  shows "forEach_callback i \<lparr>repoIssueCount = obj, realm = r\<rparr>
         = Inr \<lparr>repoIssueCount = obj @ [(repoFullName i, \<lparr>count = 1, url = webUrl i\<rparr>)], realm = r\<rparr>"
proof -
  let ?k = "repoFullName i"
  have none: "map_of obj ?k = None"
    using assms by (simp add: get_property_def split: option.splits if_splits)
  then have g2: "get_property (obj @ [(?k, \<lparr>count = 0, url = webUrl i\<rparr>)]) ?k
            = OwnEntry \<lparr>count = 0, url = webUrl i\<rparr>"
    by (simp add: get_property_def map_add_def)
  have nk: "\<forall>p \<in> set obj. fst p \<noteq> ?k"
  proof
    fix p assume "p \<in> set obj"
    then have "fst p \<in> fst ` set obj" by (rule imageI)
    moreover have "?k \<notin> fst ` set obj" using none map_of_eq_None_iff[of obj ?k] by blast
    ultimately show "fst p \<noteq> ?k" by metis
  qed
  have m: "map (\<lambda>(k', e'). if k' = ?k then (k', e'\<lparr>count := count e' + 1\<rparr>) else (k', e')) obj = obj"
    using nk by (intro map_idI) (auto split: prod.splits)
  show ?thesis
    by (simp add: forEach_callback_def Let_def assms g2 m)
qed

lemma callback_new:
  assumes "repoFullName i \<notin> repoFullName ` set ys" "repoFullName i \<notin> set Object_prototype_names"
  shows "forEach_callback i \<lparr>repoIssueCount = grouped ys, realm = r\<rparr>
         = Inr \<lparr>repoIssueCount = grouped (ys @ [i]), realm = r\<rparr>"
proof -
  have "map_of (grouped ys) (repoFullName i) = None"
    using assms(1) by (rule map_of_grouped_None)
  then have "get_property (grouped ys) (repoFullName i) = Falsy"
    using assms(2) by (simp add: get_property_def)
  then show ?thesis
    by (simp only: callback_fresh grouped_snoc_new[OF assms(1)])
qed

lemma forEach_grouped:
  "forEach items \<lparr>repoIssueCount = [], realm = r\<rparr>
     = Inr \<lparr>repoIssueCount = grouped (counted items), realm = fold List.insert (shadowed items) r\<rparr>"
proof (induction items rule: rev_induct)
  case Nil
  show ?case by (simp add: grouped_def counted_def shadowed_def first_seen_def)
next
  case (snoc i items)
  show ?case
  proof (cases "repoFullName i \<in> set Object_prototype_names")
    case True
    then show ?thesis
      by (simp add: forEach_snoc snoc.IH callback_inherited counted_snoc shadowed_snoc)
  next
    case False
    show ?thesis
    proof (cases "repoFullName i \<in> repoFullName ` set (counted items)")
      case True
      then show ?thesis using False
        by (simp add: forEach_snoc snoc.IH callback_old counted_snoc shadowed_snoc)
    next
      case n: False
      then show ?thesis using False
        by (simp add: forEach_snoc snoc.IH callback_new counted_snoc shadowed_snoc)
    qed
  qed
qed

section \<open>Sorting, identifiers and links\<close>

lemma sort_insert_insort_key:
  "sort_insert by_count_desc x ys = insort_key (\<lambda>r. - int (count r)) x ys"
  by (induction ys) (auto simp: by_count_desc_def)

lemma Array_sort_sort_key:
  "Array_sort by_count_desc xs = sort_key (\<lambda>r. - int (count r)) xs"
  unfolding Array_sort_def by (induction xs) (simp_all add: sort_insert_insort_key)

lemma sorted_desc: "sorted_wrt (\<lambda>a b. count b \<le> count a) (Array_sort by_count_desc xs)"
proof -
  have "sorted (map (\<lambda>r. - int (count r)) (sort_key (\<lambda>r. - int (count r)) xs))"
    by (rule sorted_sort_key)
  then show ?thesis
    by (simp add: Array_sort_sort_key sorted_map)
qed

lemma stable: "filter (\<lambda>r. count r = c) (Array_sort by_count_desc xs) = filter (\<lambda>r. count r = c) xs"
proof -
  have "filter (\<lambda>y. - int (count y) = - int c) (sort_key (\<lambda>r. - int (count r)) xs)
        = filter (\<lambda>y. - int (count y) = - int c) xs"
    by (rule sort_key_stable)
  then show ?thesis by (simp add: Array_sort_sort_key)
qed

lemma two_segments_iff: "two_segments i \<longleftrightarrow> CHR ''/'' \<in> set (repository_url i)"
  unfolding two_segments_def String_split_def
  using split_scan_with_sep[of "CHR ''/''" "repository_url i" "[]"] split_scan_without_sep[of "CHR ''/''" "repository_url i" "[]"]
  by (cases "CHR ''/'' \<in> set (repository_url i)") auto

lemma slice_last_two:
  "2 \<le> length xs \<Longrightarrow> Array_slice xs (- 2) None = [last (butlast xs), last xs]"
proof -
  assume a: "2 \<le> length xs"
  then obtain zs b where zs: "xs = zs @ [b]"
    by (cases xs rule: rev_cases) auto
  with a obtain ys a' where "zs = ys @ [a']"
    by (cases zs rule: rev_cases) auto
  with zs have "xs = ys @ [a', b]" by simp
  then show ?thesis by (simp add: Array_slice_def Let_def butlast_append)
qed

lemma slice_short: "length xs \<le> 2 \<Longrightarrow> Array_slice xs (- 2) None = xs"
  by (auto simp: Array_slice_def Let_def max_def)

lemma repoFullName_two:
  "two_segments i \<Longrightarrow> repoFullName i =
     last (butlast (String_split (repository_url i) CHR ''/'')) @ ''/'' @ last (String_split (repository_url i) CHR ''/'')"
  by (simp add: repoFullName_def two_segments_def slice_last_two)

lemma repoFullName_one:
  "CHR ''/'' \<notin> set (repository_url i) \<Longrightarrow> repoFullName i = repository_url i"
  by (simp add: repoFullName_def String_split_def split_scan_without_sep slice_short)

lemma slash_in_name: "two_segments i \<Longrightarrow> CHR ''/'' \<in> set (repoFullName i)"
  by (simp add: repoFullName_two)

lemma slash_not_proto: "CHR ''/'' \<in> set k \<Longrightarrow> k \<notin> set Object_prototype_names"
  by (auto simp: Object_prototype_names_def)

lemma slash_not_index: "CHR ''/'' \<in> set k \<Longrightarrow> \<not> is_array_index k"
proof
  assume s: "CHR ''/'' \<in> set k" and "is_array_index k"
  then have "list_all is_digit k" by (simp add: is_array_index_def split: list.splits)
  with s have "is_digit CHR ''/''" by (simp add: list_all_iff)
  then show False by (simp add: is_digit_def)
qed

lemma entries_no_index:
  "\<forall>p \<in> set obj. \<not> is_array_index (fst p) \<Longrightarrow> Object_entries obj = obj"
  by (simp add: Object_entries_def)

lemma replace_absent: "\<not> (\<exists>pre post. s = pre @ pat @ post) \<Longrightarrow> String_replace s pat rep = s"
proof (induction s)
  case Nil then show ?case by auto
next
  case (Cons c cs)
  have "\<not> starts_with (c # cs) pat"
  proof
    assume "starts_with (c # cs) pat"
    then have "c # cs = [] @ pat @ drop (length pat) (c # cs)"
      unfolding starts_with_def by (metis append_Nil append_take_drop_id)
    with Cons.prems show False by blast
  qed
  moreover have "\<not> (\<exists>pre post. cs = pre @ pat @ post)"
  proof
    assume "\<exists>pre post. cs = pre @ pat @ post"
    then obtain pre post where "cs = pre @ pat @ post" by blast
    then have "c # cs = (c # pre) @ pat @ post" by simp
    with Cons.prems show False by blast
  qed
  ultimately show ?case using Cons.IH by simp
qed

lemma webUrl_no_slash: "CHR ''/'' \<notin> set (repository_url i) \<Longrightarrow> webUrl i = repository_url i"
  unfolding webUrl_def by (rule replace_absent) auto

lemma webUrl_api: "repository_url i = ''https://api.github.com/repos/'' @ rest \<Longrightarrow> webUrl i = ''https://github.com/'' @ rest"
  by (simp add: webUrl_def starts_with_def)

section \<open>The result of the aggregation\<close>

lemma aggregate_in_eq:
  "aggregate_in r items
     = Inr (sortedRepos (grouped (counted items)), fold List.insert (shadowed items) r)"
  by (simp add: aggregate_in_def forEach_grouped)

lemma aggregate_eq: "aggregate items = Inr (sortedRepos (grouped (counted items)))"
  by (simp add: aggregate_def aggregate_in_eq)

lemma set_Object_entries: "set (Object_entries obj) = set obj"
  by (auto simp: Object_entries_def)

lemma set_sortedRepos: "set (sortedRepos obj) = to_Repo ` set obj"
  by (simp add: sortedRepos_def Array_sort_sort_key set_Object_entries)

lemma first_record_found:
  "k \<in> repoFullName ` set ys \<Longrightarrow> \<exists>j. first_record ys k = Some j \<and> repoFullName j = k \<and> j \<in> set ys"
  unfolding first_record_def by (induction ys) auto

lemma grouped_entry:
  assumes "(k, e) \<in> set (grouped ys)"
  shows "k \<in> repoFullName ` set ys \<and> count e = matchCount ys k
         \<and> (\<exists>j. first_record ys k = Some j \<and> repoFullName j = k \<and> j \<in> set ys \<and> url e = webUrl j)"
proof -
  have k: "k \<in> repoFullName ` set ys"
    using key_in_grouped[OF assms] by simp
  have e: "e = \<lparr>count = matchCount ys k,
                 url = (case first_record ys k of None \<Rightarrow> [] | Some i \<Rightarrow> webUrl i)\<rparr>"
    using assms by (auto simp: grouped_def)
  obtain j where j: "first_record ys k = Some j" "repoFullName j = k" "j \<in> set ys"
    using first_record_found[OF k] by blast
  show ?thesis using k e j by simp
qed

lemma grouped_has_entry:
  assumes "k \<in> repoFullName ` set ys"
  shows "\<exists>e. (k, e) \<in> set (grouped ys)"
proof -
  have "k \<in> fst ` set (grouped ys)" using assms by (simp only: keyset_grouped)
  then show ?thesis by auto
qed

lemma distinct_keys_grouped: "distinct (map fst (grouped ys))"
  by (simp only: keys_grouped distinct_first_seen)

lemma repo_to_Repo: "map repo (map to_Repo obj) = map fst obj"
  by (simp add: to_Repo_def comp_def)

lemma distinct_repo_sortedRepos:
  assumes "distinct (map fst obj)"
  shows "distinct (map repo (sortedRepos obj))"
proof -
  let ?xs = "map to_Repo (Object_entries obj)"
  have "distinct (map fst (Object_entries obj))"
    using assms
    by (auto simp: Object_entries_def distinct_map distinct_filter inj_on_def)
  then have d: "distinct (map repo ?xs)" by (simp only: repo_to_Repo)
  then have "distinct ?xs" and "inj_on repo (set ?xs)" by (simp_all only: distinct_map)
  then have "distinct (sort_key (\<lambda>r. - int (count r)) ?xs)"
    and "inj_on repo (set (sort_key (\<lambda>r. - int (count r)) ?xs))" by simp_all
  then show ?thesis
    by (simp only: sortedRepos_def Array_sort_sort_key distinct_map)
qed

lemma counted_all: "\<forall>i\<in>set items. two_segments i \<Longrightarrow> counted items = items"
  unfolding counted_def using slash_in_name slash_not_proto by (intro filter_True) blast

lemma shadowed_none: "\<forall>i\<in>set items. two_segments i \<Longrightarrow> shadowed items = []"
  unfolding shadowed_def using slash_in_name slash_not_proto by (simp add: filter_empty_conv)

lemma entries_grouped:
  assumes "\<forall>i\<in>set items. two_segments i"
  shows "Object_entries (grouped items) = grouped items"
proof (rule entries_no_index, rule ballI)
  fix p assume "p \<in> set (grouped items)"
  then have "fst p \<in> repoFullName ` set items" by (rule key_in_grouped)
  then have "CHR ''/'' \<in> set (fst p)" using assms slash_in_name by auto
  then show "\<not> is_array_index (fst p)" by (rule slash_not_index)
qed

lemma matchCount_counted:
  "k \<notin> set Object_prototype_names \<Longrightarrow> matchCount (counted items) k = matchCount items k"
  unfolding matchCount_def counted_def by (induction items) auto

lemma ties_in_first_seen_order:
  "map repo (filter (\<lambda>r. count r = c) (map to_Repo (grouped items)))
     = filter (\<lambda>k. matchCount items k = c) (first_seen (map repoFullName items))"
  by (simp add: grouped_def filter_map comp_def to_Repo_def)

lemma fold_insert_set: "set (fold List.insert xs r) = set xs \<union> set r"
  by (induction xs arbitrary: r) auto

lemma fold_insert_absorbed: "set xs \<subseteq> set r \<Longrightarrow> fold List.insert xs r = r"
  by (induction xs) (auto simp: List.insert_def)

section \<open>C1: one entry for each repository\<close>

lemma example_issues_two_segments: "\<forall>i\<in>set example_issues. two_segments i"
  by (simp add: example_issues_def two_segments_def String_split_def)

lemma name_ab: "repoFullName \<lparr>repository_url = ''https://api.github.com/repos/a/b''\<rparr> = ''a/b''"
  by (simp add: repoFullName_def String_split_def Array_slice_def)

lemma name_cd: "repoFullName \<lparr>repository_url = ''https://api.github.com/repos/c/d''\<rparr> = ''c/d''"
  by (simp add: repoFullName_def String_split_def Array_slice_def)

lemma link_ab: "webUrl \<lparr>repository_url = ''https://api.github.com/repos/a/b''\<rparr> = ''https://github.com/a/b''"
  using webUrl_api[of "\<lparr>repository_url = ''https://api.github.com/repos/a/b''\<rparr>" "''a/b''"] by simp

lemma link_cd: "webUrl \<lparr>repository_url = ''https://api.github.com/repos/c/d''\<rparr> = ''https://github.com/c/d''"
  using webUrl_api[of "\<lparr>repository_url = ''https://api.github.com/repos/c/d''\<rparr>" "''c/d''"] by simp

lemma grouped_example:
  "grouped example_issues
     = [(''a/b'', \<lparr>count = 2, url = ''https://github.com/a/b''\<rparr>),
        (''c/d'', \<lparr>count = 1, url = ''https://github.com/c/d''\<rparr>)]"
  by (simp add: grouped_def example_issues_def first_seen_def matchCount_def first_record_def
      name_ab name_cd link_ab link_cd)

lemma aggregate_example:
  "aggregate example_issues
     = Inr [\<lparr>count = 2, url = ''https://github.com/a/b'', repo = ''a/b''\<rparr>,
            \<lparr>count = 1, url = ''https://github.com/c/d'', repo = ''c/d''\<rparr>]"
proof -
  have "aggregate example_issues
          = Inr (Array_sort by_count_desc (map to_Repo (grouped example_issues)))"
    by (simp only: aggregate_eq counted_all[OF example_issues_two_segments] sortedRepos_def
        entries_grouped[OF example_issues_two_segments])
  then show ?thesis
    by (simp add: grouped_example Array_sort_def by_count_desc_def to_Repo_def)
qed

lemma counted_unshadowed:
  "\<forall>i\<in>set items. repoFullName i \<notin> set Object_prototype_names \<Longrightarrow> counted items = items"
  unfolding counted_def by (intro filter_True) blast

lemma two_segments_unshadowed:
  "\<forall>i\<in>set items. two_segments i
     \<Longrightarrow> \<forall>i\<in>set items. repoFullName i \<notin> set Object_prototype_names"
  using slash_in_name slash_not_proto by blast

text \<open>
  What holds of the aggregation when no identifier in the input is the name of a member
  of \<open>Object.prototype\<close>: it ends without an exception and its result has exactly one
  entry for each identifier that occurs; the count of an entry is the number of records
  with its identifier; its link is made from the URL of the first record with its
  identifier by replacing \<open>api.github.com/repos\<close> with \<open>github.com\<close>, which for a URL
  that starts with \<open>https://api.github.com/repos/\<close> puts \<open>https://github.com/\<close> in its
  place. The identifier of a record with at least two segments is its last two segments
  joined by \<open>/\<close>. In the loop, a record whose identifier reads as falsy creates the entry
  with count 0 and increments it, leaving an entry with count 1 after the existing ones.
\<close>

lemma aggregate_one_entry_per_repository:
  assumes "\<forall>i\<in>set items. repoFullName i \<notin> set Object_prototype_names"
  shows "\<exists>rs. aggregate items = Inr rs
           \<and> distinct (map repo rs)
           \<and> set (map repo rs) = repoFullName ` set items
           \<and> (\<forall>r\<in>set rs.
                 count r = length (filter (\<lambda>i. repoFullName i = repo r) items)
                 \<and> (\<exists>i. find (\<lambda>i. repoFullName i = repo r) items = Some i
                        \<and> url r = String_replace (repository_url i)
                                    ''api.github.com/repos'' ''github.com''))
           \<and> (\<forall>i\<in>set items.
                 (two_segments i \<longrightarrow>
                    repoFullName i
                      = last (butlast (String_split (repository_url i) CHR ''/'')) @ ''/''
                        @ last (String_split (repository_url i) CHR ''/''))
                 \<and> (\<forall>rest. repository_url i = ''https://api.github.com/repos/'' @ rest
                       \<longrightarrow> webUrl i = ''https://github.com/'' @ rest))
           \<and> (\<forall>obj r i. get_property obj (repoFullName i) = Falsy \<longrightarrow>
                 forEach_callback i \<lparr>repoIssueCount = obj, realm = r\<rparr>
                   = Inr \<lparr>repoIssueCount =
                            obj @ [(repoFullName i, \<lparr>count = 1, url = webUrl i\<rparr>)],
                          realm = r\<rparr>)"
proof -
  let ?rs = "sortedRepos (grouped items)"
  have agg: "aggregate items = Inr ?rs"
    by (simp add: aggregate_eq counted_unshadowed[OF assms])
  have d: "distinct (map repo ?rs)"
    by (rule distinct_repo_sortedRepos) (rule distinct_keys_grouped)
  have s: "set ?rs = to_Repo ` set (grouped items)" by (rule set_sortedRepos)
  have "repo ` set ?rs = fst ` set (grouped items)"
    unfolding s by (simp add: image_image to_Repo_def)
  then have k: "set (map repo ?rs) = repoFullName ` set items"
    by (simp add: keyset_grouped)
  have e: "\<forall>r\<in>set ?rs.
                 count r = length (filter (\<lambda>i. repoFullName i = repo r) items)
                 \<and> (\<exists>i. find (\<lambda>i. repoFullName i = repo r) items = Some i
                        \<and> url r = String_replace (repository_url i)
                                    ''api.github.com/repos'' ''github.com'')"
  proof
    fix r assume "r \<in> set ?rs"
    then obtain k e where ke: "(k, e) \<in> set (grouped items)" "r = to_Repo (k, e)"
      unfolding s by auto
    from grouped_entry[OF ke(1)] obtain j where
      "count e = matchCount items k" "first_record items k = Some j" "url e = webUrl j"
      by blast
    then show "count r = length (filter (\<lambda>i. repoFullName i = repo r) items)
                 \<and> (\<exists>i. find (\<lambda>i. repoFullName i = repo r) items = Some i
                        \<and> url r = String_replace (repository_url i)
                                    ''api.github.com/repos'' ''github.com'')"
      using ke(2) by (simp add: to_Repo_def matchCount_def first_record_def webUrl_def)
  qed
  have n: "\<forall>i\<in>set items.
                 (two_segments i \<longrightarrow>
                    repoFullName i
                      = last (butlast (String_split (repository_url i) CHR ''/'')) @ ''/''
                        @ last (String_split (repository_url i) CHR ''/''))
                 \<and> (\<forall>rest. repository_url i = ''https://api.github.com/repos/'' @ rest
                       \<longrightarrow> webUrl i = ''https://github.com/'' @ rest)"
    using repoFullName_two webUrl_api by blast
  have c: "\<forall>obj r i. get_property obj (repoFullName i) = Falsy \<longrightarrow>
                 forEach_callback i \<lparr>repoIssueCount = obj, realm = r\<rparr>
                   = Inr \<lparr>repoIssueCount =
                            obj @ [(repoFullName i, \<lparr>count = 1, url = webUrl i\<rparr>)],
                          realm = r\<rparr>"
    using callback_fresh by blast
  show ?thesis
    by (rule exI[of _ "sortedRepos (grouped items)"]) (intro conjI agg d k e n c)
qed




section \<open>C2: ranking\<close>

lemma sorted_sortedRepos: "sorted_wrt (\<lambda>a b. count b \<le> count a) (sortedRepos obj)"
  unfolding sortedRepos_def by (rule sorted_desc)




lemma entries_unindexed:
  assumes "\<forall>i\<in>set items. \<not> is_array_index (repoFullName i)"
  shows "Object_entries (grouped items) = grouped items"
proof (rule entries_no_index, rule ballI)
  fix p assume "p \<in> set (grouped items)"
  then have "fst p \<in> repoFullName ` set items" by (rule key_in_grouped)
  then show "\<not> is_array_index (fst p)" using assms by auto
qed

text \<open>
  What holds of the ranking: the aggregation ends without an exception and its result is
  in descending order of count, for every input. When no identifier in the input is the
  name of a member of \<open>Object.prototype\<close> or an array index, the entries of any one count
  \<open>c\<close> appear in the order in which their identifiers first occur in the input.
\<close>

lemma sortedRepos_descending_and_stable:
  "\<exists>rs. aggregate items = Inr rs
     \<and> sorted_wrt (\<lambda>a b. count b \<le> count a) rs
     \<and> ((\<forall>i\<in>set items. repoFullName i \<notin> set Object_prototype_names
                           \<and> \<not> is_array_index (repoFullName i)) \<longrightarrow>
          (\<forall>c. map repo (filter (\<lambda>r. count r = c) rs)
                = filter (\<lambda>k. length (filter (\<lambda>i. repoFullName i = k) items) = c)
                    (first_seen (map repoFullName items))))"
proof -
  let ?rs = "sortedRepos (grouped (counted items))"
  have a: "aggregate items = Inr ?rs" by (rule aggregate_eq)
  have b: "sorted_wrt (\<lambda>a b. count b \<le> count a) ?rs" by (rule sorted_sortedRepos)
  have c: "(\<forall>i\<in>set items. repoFullName i \<notin> set Object_prototype_names
                           \<and> \<not> is_array_index (repoFullName i)) \<longrightarrow>
          (\<forall>c. map repo (filter (\<lambda>r. count r = c) ?rs)
                = filter (\<lambda>k. length (filter (\<lambda>i. repoFullName i = k) items) = c)
                    (first_seen (map repoFullName items)))"
  proof (intro impI allI)
    fix c
    assume h: "\<forall>i\<in>set items. repoFullName i \<notin> set Object_prototype_names
                           \<and> \<not> is_array_index (repoFullName i)"
    then have h1: "\<forall>i\<in>set items. repoFullName i \<notin> set Object_prototype_names"
      and h2: "\<forall>i\<in>set items. \<not> is_array_index (repoFullName i)" by blast+
    have "?rs = Array_sort by_count_desc (map to_Repo (grouped items))"
      by (simp only: counted_unshadowed[OF h1] sortedRepos_def entries_unindexed[OF h2])
    then have "filter (\<lambda>r. count r = c) ?rs
                 = filter (\<lambda>r. count r = c) (map to_Repo (grouped items))"
      by (simp only: stable)
    then show "map repo (filter (\<lambda>r. count r = c) ?rs)
                = filter (\<lambda>k. length (filter (\<lambda>i. repoFullName i = k) items) = c)
                    (first_seen (map repoFullName items))"
      using ties_in_first_seen_order[of c items] by (simp only: matchCount_def)
  qed
  show ?thesis
    by (rule exI[of _ ?rs]) (intro conjI a b c)
qed

text \<open>Two repositories with one issue each keep the order of the input.\<close>

lemma aggregate_tie_example:
  "aggregate [\<lparr>repository_url = ''https://api.github.com/repos/c/d''\<rparr>,
              \<lparr>repository_url = ''https://api.github.com/repos/a/b''\<rparr>]
     = Inr [\<lparr>count = 1, url = ''https://github.com/c/d'', repo = ''c/d''\<rparr>,
            \<lparr>count = 1, url = ''https://github.com/a/b'', repo = ''a/b''\<rparr>]"
proof -
  let ?items = "[\<lparr>repository_url = ''https://api.github.com/repos/c/d''\<rparr>,
                 \<lparr>repository_url = ''https://api.github.com/repos/a/b''\<rparr>]"
  have h: "\<forall>i\<in>set ?items. two_segments i"
    by (simp add: two_segments_def String_split_def)
  have g: "grouped ?items
             = [(''c/d'', \<lparr>count = 1, url = ''https://github.com/c/d''\<rparr>),
                (''a/b'', \<lparr>count = 1, url = ''https://github.com/a/b''\<rparr>)]"
    by (simp add: grouped_def first_seen_def matchCount_def first_record_def
        name_ab name_cd link_ab link_cd)
  have "aggregate ?items = Inr (Array_sort by_count_desc (map to_Repo (grouped ?items)))"
    by (simp only: aggregate_eq counted_all[OF h] sortedRepos_def entries_grouped[OF h])
  then show ?thesis
    by (simp add: g Array_sort_def by_count_desc_def to_Repo_def)
qed



section \<open>C9: what the aggregation depends on and what it changes\<close>

lemma realm_after_second_run:
  "fold List.insert (shadowed items) (fold List.insert (shadowed items) r)
     = fold List.insert (shadowed items) r"
  by (rule fold_insert_absorbed) (simp add: fold_insert_set)

lemma shadowed_unshadowed:
  "\<forall>i\<in>set items. repoFullName i \<notin> set Object_prototype_names \<Longrightarrow> shadowed items = []"
  unfolding shadowed_def by (simp add: filter_empty_conv)

text \<open>
  What holds of the effects of the aggregation: in whatever state the shared values of
  the page are, the same ranked list is returned and no exception is raised, and a second
  run on the same input, started in the state the first run left, returns the same list
  and leaves that state. When no identifier in the input is the name of a member of
  \<open>Object.prototype\<close>, the aggregation leaves the shared state as it found it.
\<close>

lemma aggregate_is_function_of_input:
  "\<exists>rs. aggregate items = Inr rs
     \<and> (\<forall>r. \<exists>r'. aggregate_in r items = Inr (rs, r') \<and> aggregate_in r' items = Inr (rs, r'))
     \<and> ((\<forall>i\<in>set items. repoFullName i \<notin> set Object_prototype_names)
           \<longrightarrow> (\<forall>r. aggregate_in r items = Inr (rs, r)))"
proof -
  let ?rs = "sortedRepos (grouped (counted items))"
  have a: "aggregate items = Inr ?rs" by (rule aggregate_eq)
  have b: "\<forall>r. \<exists>r'. aggregate_in r items = Inr (?rs, r') \<and> aggregate_in r' items = Inr (?rs, r')"
  proof
    fix r
    have "aggregate_in r items = Inr (?rs, fold List.insert (shadowed items) r)"
      by (rule aggregate_in_eq)
    moreover have "aggregate_in (fold List.insert (shadowed items) r) items
                     = Inr (?rs, fold List.insert (shadowed items) r)"
      by (simp only: aggregate_in_eq realm_after_second_run)
    ultimately show "\<exists>r'. aggregate_in r items = Inr (?rs, r') \<and> aggregate_in r' items = Inr (?rs, r')"
      by (intro exI[of _ "fold List.insert (shadowed items) r"] conjI)
  qed
  have c: "(\<forall>i\<in>set items. repoFullName i \<notin> set Object_prototype_names)
             \<longrightarrow> (\<forall>r. aggregate_in r items = Inr (?rs, r))"
  proof (intro impI allI)
    fix r
    assume h: "\<forall>i\<in>set items. repoFullName i \<notin> set Object_prototype_names"
    show "aggregate_in r items = Inr (?rs, r)"
      by (simp add: aggregate_in_eq shadowed_unshadowed[OF h])
  qed
  show ?thesis
    by (rule exI[of _ ?rs]) (intro conjI a b c)
qed



section \<open>C10: repository-URLs with a single segment\<close>

lemma one_segment_name:
  assumes "\<not> two_segments i"
  shows "repoFullName i = repository_url i" and "webUrl i = repository_url i"
proof -
  have n: "CHR ''/'' \<notin> set (repository_url i)" using assms by (simp add: two_segments_iff)
  show "repoFullName i = repository_url i" using n by (rule repoFullName_one)
  show "webUrl i = repository_url i" using n by (rule webUrl_no_slash)
qed

lemma same_name_one_segment:
  assumes "\<not> two_segments i" and "repoFullName j = repoFullName i"
  shows "webUrl j = repository_url i"
proof -
  have n: "CHR ''/'' \<notin> set (repoFullName i)"
    using assms(1) one_segment_name(1)[OF assms(1)] by (simp add: two_segments_iff)
  have "\<not> two_segments j"
  proof
    assume "two_segments j"
    then have "CHR ''/'' \<in> set (repoFullName j)" by (rule slash_in_name)
    with n assms(2) show False by simp
  qed
  then have "webUrl j = repository_url j" "repoFullName j = repository_url j"
    by (simp_all add: one_segment_name)
  with assms(2) one_segment_name(1)[OF assms(1)] show ?thesis by simp
qed

lemma one_segment_entry:
  assumes i: "i \<in> set items" and n: "\<not> two_segments i"
    and p: "repository_url i \<notin> set Object_prototype_names"
  shows "\<exists>r\<in>set (sortedRepos (grouped (counted items))).
           repo r = repository_url i
           \<and> count r = length (filter (\<lambda>j. repoFullName j = repository_url i) items)
           \<and> url r = repository_url i"
proof -
  let ?u = "repository_url i"
  have name: "repoFullName i = ?u" using n by (rule one_segment_name(1))
  have "i \<in> set (counted items)" using i p name by (simp add: counted_def)
  then have "?u \<in> repoFullName ` set (counted items)" using name by force
  then obtain e where e: "(?u, e) \<in> set (grouped (counted items))"
    using grouped_has_entry by blast
  from grouped_entry[OF e] obtain j where
    c: "count e = matchCount (counted items) ?u" and j: "repoFullName j = ?u" "url e = webUrl j"
    by blast
  have "webUrl j = ?u" using n j(1) name by (intro same_name_one_segment) simp_all
  then have u: "url e = ?u" using j(2) by simp
  have c': "count e = length (filter (\<lambda>j. repoFullName j = ?u) items)"
    using c matchCount_counted[OF p, of items] by (simp add: matchCount_def)
  have "to_Repo (?u, e) \<in> set (sortedRepos (grouped (counted items)))"
    using e by (simp add: set_sortedRepos)
  moreover have "repo (to_Repo (?u, e)) = ?u" "count (to_Repo (?u, e)) = count e"
    "url (to_Repo (?u, e)) = url e" by (simp_all add: to_Repo_def)
  ultimately show ?thesis using c' u by (intro bexI[of _ "to_Repo (?u, e)"]) simp_all
qed

text \<open>
  What holds for arbitrary strings: the aggregation raises no exception, whatever strings the
  repository-URLs are. A repository-URL with fewer than two \<open>/\<close>-delimited segments is
  its own identifier and its own link; if it does not name a member of
  \<open>Object.prototype\<close>, the result has an entry under it whose count is the number of
  records with that identifier and whose link is the URL unchanged. More generally the link
  of a record is its URL unchanged when \<open>api.github.com/repos\<close> does not occur in it.
\<close>

lemma aggregate_total_on_single_segment:
  "\<exists>rs. aggregate items = Inr rs
     \<and> (\<forall>i\<in>set items. \<not> two_segments i \<longrightarrow>
           repoFullName i = repository_url i
           \<and> webUrl i = repository_url i
           \<and> (repository_url i \<notin> set Object_prototype_names \<longrightarrow>
                (\<exists>r\<in>set rs. repo r = repository_url i
                    \<and> count r = length (filter (\<lambda>j. repoFullName j = repository_url i) items)
                    \<and> url r = repository_url i)))
     \<and> (\<forall>i. \<not> (\<exists>pre post. repository_url i = pre @ ''api.github.com/repos'' @ post)
             \<longrightarrow> webUrl i = repository_url i)"
proof -
  let ?rs = "sortedRepos (grouped (counted items))"
  have a: "aggregate items = Inr ?rs" by (rule aggregate_eq)
  have b: "\<forall>i\<in>set items. \<not> two_segments i \<longrightarrow>
           repoFullName i = repository_url i
           \<and> webUrl i = repository_url i
           \<and> (repository_url i \<notin> set Object_prototype_names \<longrightarrow>
                (\<exists>r\<in>set ?rs. repo r = repository_url i
                    \<and> count r = length (filter (\<lambda>j. repoFullName j = repository_url i) items)
                    \<and> url r = repository_url i))"
    using one_segment_name one_segment_entry by (intro ballI impI conjI)
  have c: "\<forall>i. \<not> (\<exists>pre post. repository_url i = pre @ ''api.github.com/repos'' @ post)
             \<longrightarrow> webUrl i = repository_url i"
    unfolding webUrl_def using replace_absent by blast
  show ?thesis
    by (rule exI[of _ ?rs]) (intro conjI a b c)
qed

lemma name_constructor: "repoFullName \<lparr>repository_url = ''constructor''\<rparr> = ''constructor''"
  by (simp add: repoFullName_one)

lemma aggregate_in_constructor:
  "aggregate_in [] [\<lparr>repository_url = ''constructor''\<rparr>] = Inr ([], [''constructor''])"
  by (simp add: aggregate_in_eq counted_def shadowed_def name_constructor
      Object_prototype_names_def grouped_def first_seen_def sortedRepos_def Object_entries_def
      Array_sort_def)

text \<open>
  Claim C10: a record whose repository-URL has fewer than two segments is counted under
  the whole string. The record with the repository-URL \<open>constructor\<close> has one segment
  and is not counted: the read of line 51 finds the inherited
  \<open>Object.prototype.constructor\<close>, so no entry is created, and the result is empty.
\<close>

theorem aggregate_constructor_not_counted:
  "\<not> two_segments \<lparr>repository_url = ''constructor''\<rparr>
   \<and> aggregate [\<lparr>repository_url = ''constructor''\<rparr>] = Inr []"
  by (simp add: aggregate_def aggregate_in_constructor two_segments_iff)

section \<open>The fetch cycle\<close>

lemma try_block_rejected:
  "fetch (request_url t) = Rejected \<Longrightarrow> try_block fetch t = Inl NetworkError"
  by (simp add: try_block_def)

lemma try_block_not_ok:
  "fetch (request_url t) = Response False b
     \<Longrightarrow> try_block fetch t = Inl (Error ''Failed to fetch issues'')"
  by (simp add: try_block_def)

lemma try_block_malformed:
  "fetch (request_url t) = Response True Malformed \<Longrightarrow> try_block fetch t = Inl SyntaxError"
  by (simp add: try_block_def)

lemma try_block_items:
  "fetch (request_url t) = Response True (Items items) \<Longrightarrow> try_block fetch t = aggregate items"
  by (simp add: try_block_def)

lemma try_block_failure:
  assumes "\<forall>items. fetch (request_url t) \<noteq> Response True (Items items)"
  shows "\<exists>e. try_block fetch t = Inl e"
proof (cases "fetch (request_url t)")
  case Rejected
  then show ?thesis by (simp add: try_block_rejected)
next
  case (Response ok b)
  show ?thesis
  proof (cases ok)
    case False
    with Response show ?thesis by (simp add: try_block_not_ok)
  next
    case True
    with Response assms have "b = Malformed" by (cases b) auto
    with True Response show ?thesis by (simp add: try_block_malformed)
  qed
qed

lemma fetch_caught:
  assumes "try_block fetch t = Inl e"
  shows "fetchIssuesByTags fetch t s
         = s\<lparr>loading := False,
              error := Some ''An error occurred while fetching issues. Please try again.''\<rparr>"
  using assms by (simp add: fetchIssuesByTags_def Let_def)

lemma fetch_succeeded:
  assumes "try_block fetch t = Inr rs"
  shows "fetchIssuesByTags fetch t s = s\<lparr>loading := False, error := None, repos := rs\<rparr>"
  using assms by (simp add: fetchIssuesByTags_def Let_def)

lemma fetch_frame:
  "tags (fetchIssuesByTags fetch t s) = tags s
   \<and> currentPage (fetchIssuesByTags fetch t s) = currentPage s
   \<and> loading (fetchIssuesByTags fetch t s) = False"
  by (cases "try_block fetch t") (simp_all add: fetch_caught fetch_succeeded)

section \<open>C5: the message of a failed fetch\<close>

text \<open>A non-success status and an unreachable network show the same message.\<close>

theorem failures_show_the_same_message:
  "error (fetchIssuesByTags server_error ''bug'' initial_state)
     = Some ''An error occurred while fetching issues. Please try again.''
   \<and> error (fetchIssuesByTags unreachable ''bug'' initial_state)
     = Some ''An error occurred while fetching issues. Please try again.''"
proof -
  have "try_block server_error ''bug'' = Inl (Error ''Failed to fetch issues'')"
    by (rule try_block_not_ok[of _ _ Malformed]) (simp add: server_error_def)
  moreover have "try_block unreachable ''bug'' = Inl NetworkError"
    by (rule try_block_rejected) (simp add: unreachable_def)
  ultimately show ?thesis by (simp add: fetch_caught)
qed

text \<open>
  Claim C5, amended. A non-success HTTP status, a rejected request and a body that
  cannot be read are all surfaced as the one fixed message \<open>An error occurred while
  fetching issues. Please try again.\<close>; \<open>Failed to fetch issues\<close> is the message of the
  exception thrown for a non-success status, which the \<open>catch\<close> clause does not read. A
  fetch that succeeds leaves no message.
\<close>

theorem failed_fetch_shows_fixed_message:
  "((\<forall>items. fetch (request_url t) \<noteq> Response True (Items items)) \<longrightarrow>
       error (fetchIssuesByTags fetch t s)
         = Some ''An error occurred while fetching issues. Please try again.'')
   \<and> (\<forall>b. fetch (request_url t) = Response False b \<longrightarrow>
         try_block fetch t = Inl (Error ''Failed to fetch issues''))
   \<and> (\<forall>items. fetch (request_url t) = Response True (Items items) \<longrightarrow>
         error (fetchIssuesByTags fetch t s) = None)"
proof -
  have a: "(\<forall>items. fetch (request_url t) \<noteq> Response True (Items items)) \<longrightarrow>
       error (fetchIssuesByTags fetch t s)
         = Some ''An error occurred while fetching issues. Please try again.''"
  proof
    assume "\<forall>items. fetch (request_url t) \<noteq> Response True (Items items)"
    then obtain e where "try_block fetch t = Inl e" using try_block_failure by blast
    then show "error (fetchIssuesByTags fetch t s)
         = Some ''An error occurred while fetching issues. Please try again.''"
      by (simp add: fetch_caught)
  qed
  have b: "\<forall>b. fetch (request_url t) = Response False b \<longrightarrow>
         try_block fetch t = Inl (Error ''Failed to fetch issues'')"
    using try_block_not_ok by blast
  have c: "\<forall>items. fetch (request_url t) = Response True (Items items) \<longrightarrow>
         error (fetchIssuesByTags fetch t s) = None"
  proof (intro allI impI)
    fix items
    assume "fetch (request_url t) = Response True (Items items)"
    then have "try_block fetch t = Inr (sortedRepos (grouped (counted items)))"
      by (simp add: try_block_items aggregate_eq)
    then show "error (fetchIssuesByTags fetch t s) = None" by (simp add: fetch_succeeded)
  qed
  show ?thesis by (intro conjI a b c)
qed

theorem failed_fetch_shows_fixed_message_witness:
  "server_error (request_url ''bug'') = Response False Malformed
   \<and> try_block server_error ''bug'' = Inl (Error ''Failed to fetch issues'')
   \<and> error (fetchIssuesByTags server_error ''bug'' earlier_result)
       = Some ''An error occurred while fetching issues. Please try again.''"
proof -
  have r: "server_error (request_url ''bug'') = Response False Malformed"
    by (simp add: server_error_def)
  then have n: "\<forall>items. server_error (request_url ''bug'') \<noteq> Response True (Items items)"
    by simp
  note inst = failed_fetch_shows_fixed_message[of server_error "''bug''" earlier_result]
  from inst n have "error (fetchIssuesByTags server_error ''bug'' earlier_result)
       = Some ''An error occurred while fetching issues. Please try again.''"
    by blast
  moreover from inst r have "try_block server_error ''bug'' = Inl (Error ''Failed to fetch issues'')"
    by blast
  ultimately show ?thesis using r by (intro conjI)
qed

section \<open>C6: the results after a failed fetch\<close>

text \<open>
  Claim C6. When the fetch cycle does not end with a successful response whose items
  can be read, the stored results are those from before, beside the error message; when
  it does, the stored results are the result of the aggregation of the items. The label
  text and the page index are not changed by the cycle, and loading ends.
\<close>

theorem failed_fetch_keeps_results:
  "((\<forall>items. fetch (request_url t) \<noteq> Response True (Items items)) \<longrightarrow>
       repos (fetchIssuesByTags fetch t s) = repos s
       \<and> error (fetchIssuesByTags fetch t s)
           = Some ''An error occurred while fetching issues. Please try again.'')
   \<and> (\<forall>items. fetch (request_url t) = Response True (Items items) \<longrightarrow>
         aggregate items = Inr (repos (fetchIssuesByTags fetch t s)))
   \<and> tags (fetchIssuesByTags fetch t s) = tags s
   \<and> currentPage (fetchIssuesByTags fetch t s) = currentPage s
   \<and> loading (fetchIssuesByTags fetch t s) = False"
proof -
  have a: "(\<forall>items. fetch (request_url t) \<noteq> Response True (Items items)) \<longrightarrow>
       repos (fetchIssuesByTags fetch t s) = repos s
       \<and> error (fetchIssuesByTags fetch t s)
           = Some ''An error occurred while fetching issues. Please try again.''"
  proof
    assume "\<forall>items. fetch (request_url t) \<noteq> Response True (Items items)"
    then obtain e where "try_block fetch t = Inl e" using try_block_failure by blast
    then show "repos (fetchIssuesByTags fetch t s) = repos s
       \<and> error (fetchIssuesByTags fetch t s)
           = Some ''An error occurred while fetching issues. Please try again.''"
      by (simp add: fetch_caught)
  qed
  have b: "\<forall>items. fetch (request_url t) = Response True (Items items) \<longrightarrow>
         aggregate items = Inr (repos (fetchIssuesByTags fetch t s))"
  proof (intro allI impI)
    fix items
    assume "fetch (request_url t) = Response True (Items items)"
    then have "try_block fetch t = Inr (sortedRepos (grouped (counted items)))"
      by (simp add: try_block_items aggregate_eq)
    then show "aggregate items = Inr (repos (fetchIssuesByTags fetch t s))"
      by (simp add: fetch_succeeded aggregate_eq)
  qed
  from fetch_frame[of fetch t s] show ?thesis by (intro conjI a b) simp_all
qed

theorem failed_fetch_keeps_results_witness:
  "unreachable (request_url ''bug'') = Rejected
   \<and> repos (fetchIssuesByTags unreachable ''bug'' earlier_result)
       = [\<lparr>count = 2, url = ''https://github.com/a/b'', repo = ''a/b''\<rparr>]
   \<and> error (fetchIssuesByTags unreachable ''bug'' earlier_result)
       = Some ''An error occurred while fetching issues. Please try again.''"
proof -
  have r: "unreachable (request_url ''bug'') = Rejected" by (simp add: unreachable_def)
  then have n: "\<forall>items. unreachable (request_url ''bug'') \<noteq> Response True (Items items)"
    by simp
  from failed_fetch_keeps_results[of unreachable "''bug''" earlier_result] n
  have "repos (fetchIssuesByTags unreachable ''bug'' earlier_result) = repos earlier_result
       \<and> error (fetchIssuesByTags unreachable ''bug'' earlier_result)
           = Some ''An error occurred while fetching issues. Please try again.''"
    by blast
  moreover have "repos earlier_result
                   = [\<lparr>count = 2, url = ''https://github.com/a/b'', repo = ''a/b''\<rparr>]"
    by (simp add: earlier_result_def)
  ultimately show ?thesis using r by simp
qed

section \<open>C7: the page index after a search and after a topic click\<close>

lemma topic_click_fetches:
  assumes "topic \<noteq> []"
  shows "handleTrendingTopicClick fetch topic s
         = fetchIssuesByTags fetch (if tags s = [] then topic else tags s @ '','' @ topic)
             (s\<lparr>tags := (if tags s = [] then topic else tags s @ '','' @ topic)\<rparr>)"
proof (cases "tags s = []")
  case True
  with assms show ?thesis
    by (auto simp add: handleTrendingTopicClick_def useEffect_tags_def Let_def)
next
  case False
  have "tags s @ '','' @ topic \<noteq> tags s" by simp
  with False show ?thesis
    by (simp add: handleTrendingTopicClick_def useEffect_tags_def Let_def)
qed

lemma trendingTopics_not_empty: "topic \<in> set trendingTopics \<Longrightarrow> topic \<noteq> []"
  by (auto simp add: trendingTopics_def)

lemma topic_click_frame:
  "currentPage (handleTrendingTopicClick fetch topic s) = currentPage s
   \<and> tags (handleTrendingTopicClick fetch topic s)
       = (if tags s = [] then topic else tags s @ '','' @ topic)"
  by (simp add: handleTrendingTopicClick_def useEffect_tags_def Let_def fetch_frame)

text \<open>
  Claim C7. A search submission runs the fetch cycle for the current label text and
  leaves the page index at 1. A click on a topic appends the topic to the label text
  (after a comma, or alone when the text was empty) and leaves the page index as it was;
  for a topic that is not empty, and so for each of the six trending topics, the changed
  text makes the effect run the fetch cycle for the new text.
\<close>

theorem search_resets_page_topic_click_does_not:
  "currentPage (handleSearch fetch s) = 1
   \<and> repos (handleSearch fetch s) = repos (fetchIssuesByTags fetch (tags s) s)
   \<and> error (handleSearch fetch s) = error (fetchIssuesByTags fetch (tags s) s)
   \<and> tags (handleSearch fetch s) = tags s
   \<and> currentPage (handleTrendingTopicClick fetch topic s) = currentPage s
   \<and> tags (handleTrendingTopicClick fetch topic s)
       = (if tags s = [] then topic else tags s @ '','' @ topic)
   \<and> (topic \<noteq> [] \<longrightarrow>
         handleTrendingTopicClick fetch topic s
           = fetchIssuesByTags fetch (if tags s = [] then topic else tags s @ '','' @ topic)
               (s\<lparr>tags := (if tags s = [] then topic else tags s @ '','' @ topic)\<rparr>))
   \<and> (\<forall>t\<in>set trendingTopics. t \<noteq> [])"
proof -
  have a: "currentPage (handleSearch fetch s) = 1
   \<and> repos (handleSearch fetch s) = repos (fetchIssuesByTags fetch (tags s) s)
   \<and> error (handleSearch fetch s) = error (fetchIssuesByTags fetch (tags s) s)
   \<and> tags (handleSearch fetch s) = tags s"
    by (simp add: handleSearch_def fetch_frame)
  have b: "topic \<noteq> [] \<longrightarrow>
         handleTrendingTopicClick fetch topic s
           = fetchIssuesByTags fetch (if tags s = [] then topic else tags s @ '','' @ topic)
               (s\<lparr>tags := (if tags s = [] then topic else tags s @ '','' @ topic)\<rparr>)"
    using topic_click_fetches by blast
  have c: "\<forall>t\<in>set trendingTopics. t \<noteq> []"
    using trendingTopics_not_empty by blast
  from a topic_click_frame[of fetch topic s] b c show ?thesis by blast
qed

theorem search_resets_page_topic_click_does_not_witness:
  "currentPage earlier_result = 3
   \<and> currentPage (handleSearch unreachable earlier_result) = 1
   \<and> currentPage (handleTrendingTopicClick unreachable ''help-wanted'' earlier_result) = 3
   \<and> tags (handleTrendingTopicClick unreachable ''help-wanted'' earlier_result)
       = ''bug,help-wanted''
   \<and> handleTrendingTopicClick unreachable ''help-wanted'' earlier_result
       = fetchIssuesByTags unreachable ''bug,help-wanted''
           (earlier_result\<lparr>tags := ''bug,help-wanted''\<rparr>)"
proof -
  note inst = search_resets_page_topic_click_does_not[of unreachable earlier_result "''help-wanted''"]
  have t: "tags earlier_result = ''bug''" and p: "currentPage earlier_result = 3"
    by (simp_all add: earlier_result_def)
  have n: "''help-wanted'' \<noteq> []" by simp
  from inst have "currentPage (handleSearch unreachable earlier_result) = 1" by (elim conjE)
  moreover from inst
  have "currentPage (handleTrendingTopicClick unreachable ''help-wanted'' earlier_result)
          = currentPage earlier_result" by (elim conjE)
  moreover from inst
  have "tags (handleTrendingTopicClick unreachable ''help-wanted'' earlier_result)
       = (if tags earlier_result = [] then ''help-wanted''
          else tags earlier_result @ '','' @ ''help-wanted'')" by (elim conjE)
  moreover from inst n
  have "handleTrendingTopicClick unreachable ''help-wanted'' earlier_result
           = fetchIssuesByTags unreachable
               (if tags earlier_result = [] then ''help-wanted''
                else tags earlier_result @ '','' @ ''help-wanted'')
               (earlier_result\<lparr>tags := (if tags earlier_result = [] then ''help-wanted''
                else tags earlier_result @ '','' @ ''help-wanted'')\<rparr>)" by (elim conjE impE)
  ultimately show ?thesis using p by (simp add: t)
qed

section \<open>C8: Previous and Next\<close>

lemma totalPages_small: "int (length rs) \<le> 10 \<Longrightarrow> totalPages rs \<le> 1"
  unfolding totalPages_div by presburger

lemma totalPages_large: "10 < int (length rs) \<Longrightarrow> 2 \<le> totalPages rs"
  unfolding totalPages_div by presburger

text \<open>
  Claim C8. For a page index between 1 and the number of pages, Previous leaves the
  index at \<open>max (index - 1) 1\<close> and Next at \<open>min (index + 1) totalPages\<close>, both again
  between 1 and the number of pages; at index 1 Previous changes nothing, at the last
  page Next changes nothing; neither changes the results.
\<close>

theorem pager_keeps_page_in_range:
  assumes "1 \<le> currentPage s" and "currentPage s \<le> totalPages (repos s)"
  shows "currentPage (previous_click s) = max (currentPage s - 1) 1
         \<and> currentPage (next_click s) = min (currentPage s + 1) (totalPages (repos s))
         \<and> 1 \<le> currentPage (previous_click s)
         \<and> currentPage (previous_click s) \<le> totalPages (repos (previous_click s))
         \<and> 1 \<le> currentPage (next_click s)
         \<and> currentPage (next_click s) \<le> totalPages (repos (next_click s))
         \<and> (currentPage s = 1 \<longrightarrow> previous_click s = s)
         \<and> (currentPage s = totalPages (repos s) \<longrightarrow> next_click s = s)
         \<and> repos (previous_click s) = repos s
         \<and> repos (next_click s) = repos s"
proof (cases "pager_rendered s")
  case True
  with assms show ?thesis
    by (auto simp add: previous_click_def next_click_def)
next
  case False
  then have "int (length (repos s)) \<le> 10"
    by (simp add: pager_rendered_def ITEMS_PER_PAGE_def)
  then have "totalPages (repos s) \<le> 1" by (rule totalPages_small)
  with assms have "currentPage s = 1" "totalPages (repos s) = 1" by simp_all
  with False show ?thesis
    by (simp add: previous_click_def next_click_def)
qed

theorem pager_keeps_page_in_range_witness:
  "(1::int) \<le> currentPage twelve_results
   \<and> currentPage twelve_results \<le> totalPages (repos twelve_results)
   \<and> totalPages (repos twelve_results) = 2
   \<and> currentPage (previous_click twelve_results) = 1
   \<and> next_click twelve_results = twelve_results"
proof -
  have p: "currentPage twelve_results = 2" by (simp add: twelve_results_def)
  have t: "totalPages (repos twelve_results) = 2"
    by (simp add: twelve_results_def totalPages_div)
  have h1: "1 \<le> currentPage twelve_results" and h2: "currentPage twelve_results \<le> totalPages (repos twelve_results)"
    by (simp_all add: p t)
  note inst = pager_keeps_page_in_range[OF h1 h2]
  from inst have "currentPage (previous_click twelve_results) = max (currentPage twelve_results - 1) 1"
    by (elim conjE)
  then have a: "currentPage (previous_click twelve_results) = 1" by (simp add: p)
  from inst have "currentPage twelve_results = totalPages (repos twelve_results)
                    \<longrightarrow> next_click twelve_results = twelve_results"
    by (elim conjE)
  then have b: "next_click twelve_results = twelve_results" by (simp add: p t)
  from h1 h2 t a b show ?thesis by (intro conjI)
qed

end
